theory Spec2Isabelle
  imports Main "HOL-Library.AList"
begin

section \<open>Data model of \<^verbatim>\<open>textual/_cache.py\<close>\<close>

text \<open>
  The module holds two bounded caches, \<^verbatim>\<open>LRUCache\<close> and \<^verbatim>\<open>FIFOCache\<close>. Both are
  modelled single-threaded: \<^verbatim>\<open>with self._lock\<close> is the identity on a sequential run, so
  the lock is not part of the state.

  A Python \<^verbatim>\<open>dict\<close> keeps insertion order, overwrites in place and appends a new key at
  the end. It is an association list here: \<^const>\<open>map_of\<close> is \<^verbatim>\<open>d.get(k)\<close>,
  \<^const>\<open>AList.update\<close> is \<^verbatim>\<open>d[k] = v\<close>, \<^const>\<open>AList.delete\<close> is \<^verbatim>\<open>del d[k]\<close> on
  a key that is there, \<^const>\<open>length\<close> is \<^verbatim>\<open>len(d)\<close> and \<^verbatim>\<open>map fst\<close> is
  \<^verbatim>\<open>d.keys()\<close>. Python integers are unbounded: \<^typ>\<open>int\<close>.
\<close>

datatype error = KeyError | IndexError | StopIteration

text \<open>
  The result of a lookup with a default: \<^verbatim>\<open>CacheValue | DefaultValue\<close>.
\<close>

datatype ('v, 'd) lookup = Value 'v | Default 'd

subsection \<open>The linked entries of \<^verbatim>\<open>LRUCache\<close>\<close>

text \<open>
  Every entry of the recency ring is a Python list object \<^verbatim>\<open>[PREV, NEXT, KEY, VALUE]\<close>
  that other entries and the dict refer to; \<^verbatim>\<open>self._head\<close> starts as the empty list
  \<^verbatim>\<open>[]\<close>. The list objects live in a store indexed by references, so that two names
  of one object see each other's writes. \<^verbatim>\<open>lru_next_ref\<close> is the next unused
  reference; creating a list object takes it.
\<close>

type_synonym ref = nat

datatype ('k, 'v) link = Empty_list | Link (PREV: ref) (NEXT: ref) (KEY: 'k) (VALUE: 'v)

record ('k, 'v) LRUCache =
  lru_maxsize :: int
  lru_cache :: "('k \<times> ref) list"
  lru_full :: bool
  lru_head :: ref
  lru_hits :: int
  lru_misses :: int
  lru_heap :: "ref \<Rightarrow> ('k, 'v) link"
  lru_next_ref :: ref

text \<open>
  A statement of a method runs on the cache and either returns or raises; what it wrote
  before raising stays written.
\<close>

type_synonym ('k, 'v, 'a) stmt = "('k, 'v) LRUCache \<Rightarrow> (error + 'a) \<times> ('k, 'v) LRUCache"

definition ret :: "'a \<Rightarrow> ('k, 'v, 'a) stmt" where
  "ret x = (\<lambda>s. (Inr x, s))"

definition raise :: "error \<Rightarrow> ('k, 'v, 'a) stmt" where
  "raise e = (\<lambda>s. (Inl e, s))"

definition seq :: "('k, 'v, 'a) stmt \<Rightarrow> ('a \<Rightarrow> ('k, 'v, 'b) stmt) \<Rightarrow> ('k, 'v, 'b) stmt" where
  "seq m f = (\<lambda>s. case m s of (Inl e, s') \<Rightarrow> (Inl e, s') | (Inr x, s') \<Rightarrow> f x s')"

text \<open>\<^verbatim>\<open>l[0]\<close>, \<^verbatim>\<open>l[1]\<close>, \<^verbatim>\<open>l[2]\<close>, \<^verbatim>\<open>l[3]\<close>: an \<^verbatim>\<open>IndexError\<close> on the empty list.\<close>

definition get_PREV :: "ref \<Rightarrow> ('k, 'v, ref) stmt" where
  "get_PREV l = (\<lambda>s. case lru_heap s l of
       Empty_list \<Rightarrow> (Inl IndexError, s) | Link p n k v \<Rightarrow> (Inr p, s))"

definition get_NEXT :: "ref \<Rightarrow> ('k, 'v, ref) stmt" where
  "get_NEXT l = (\<lambda>s. case lru_heap s l of
       Empty_list \<Rightarrow> (Inl IndexError, s) | Link p n k v \<Rightarrow> (Inr n, s))"

definition get_KEY :: "ref \<Rightarrow> ('k, 'v, 'k) stmt" where
  "get_KEY l = (\<lambda>s. case lru_heap s l of
       Empty_list \<Rightarrow> (Inl IndexError, s) | Link p n k v \<Rightarrow> (Inr k, s))"

definition get_VALUE :: "ref \<Rightarrow> ('k, 'v, 'v) stmt" where
  "get_VALUE l = (\<lambda>s. case lru_heap s l of
       Empty_list \<Rightarrow> (Inl IndexError, s) | Link p n k v \<Rightarrow> (Inr v, s))"

text \<open>\<^verbatim>\<open>l[0] = x\<close> and \<^verbatim>\<open>l[1] = x\<close>: an \<^verbatim>\<open>IndexError\<close> on the empty list.\<close>

definition set_PREV :: "ref \<Rightarrow> ref \<Rightarrow> ('k, 'v, unit) stmt" where
  "set_PREV l x = (\<lambda>s. case lru_heap s l of
       Empty_list \<Rightarrow> (Inl IndexError, s)
     | Link p n k v \<Rightarrow> (Inr (), s\<lparr>lru_heap := (lru_heap s)(l := Link x n k v)\<rparr>))"

definition set_NEXT :: "ref \<Rightarrow> ref \<Rightarrow> ('k, 'v, unit) stmt" where
  "set_NEXT l x = (\<lambda>s. case lru_heap s l of
       Empty_list \<Rightarrow> (Inl IndexError, s)
     | Link p n k v \<Rightarrow> (Inr (), s\<lparr>lru_heap := (lru_heap s)(l := Link p x k v)\<rparr>))"

text \<open>\<^verbatim>\<open>l[:] = [p, n, k, v]\<close> writes all of an existing list object.\<close>

definition assign_all :: "ref \<Rightarrow> ref \<Rightarrow> ref \<Rightarrow> 'k \<Rightarrow> 'v \<Rightarrow> ('k, 'v, unit) stmt" where
  "assign_all l p n k v = (\<lambda>s. (Inr (), s\<lparr>lru_heap := (lru_heap s)(l := Link p n k v)\<rparr>))"

text \<open>\<^verbatim>\<open>[p, n, k, v]\<close> and \<^verbatim>\<open>[]\<close> create a list object and give its reference.\<close>

definition new_link :: "ref \<Rightarrow> ref \<Rightarrow> 'k \<Rightarrow> 'v \<Rightarrow> ('k, 'v, ref) stmt" where
  "new_link p n k v = (\<lambda>s. (Inr (lru_next_ref s),
       s\<lparr>lru_heap := (lru_heap s)(lru_next_ref s := Link p n k v),
         lru_next_ref := Suc (lru_next_ref s)\<rparr>))"

definition new_empty :: "('k, 'v, ref) stmt" where
  "new_empty = (\<lambda>s. (Inr (lru_next_ref s),
       s\<lparr>lru_heap := (lru_heap s)(lru_next_ref s := Empty_list),
         lru_next_ref := Suc (lru_next_ref s)\<rparr>))"

definition set_head :: "ref \<Rightarrow> ('k, 'v, unit) stmt" where
  "set_head l = (\<lambda>s. (Inr (), s\<lparr>lru_head := l\<rparr>))"

definition set_full :: "bool \<Rightarrow> ('k, 'v, unit) stmt" where
  "set_full b = (\<lambda>s. (Inr (), s\<lparr>lru_full := b\<rparr>))"

text \<open>\<^verbatim>\<open>self._cache[key] = l\<close> and \<^verbatim>\<open>del self._cache[key]\<close> (a \<^verbatim>\<open>KeyError\<close> on a missing key).\<close>

definition cache_setitem :: "'k \<Rightarrow> ref \<Rightarrow> ('k, 'v, unit) stmt" where
  "cache_setitem key l = (\<lambda>s. (Inr (), s\<lparr>lru_cache := AList.update key l (lru_cache s)\<rparr>))"

definition cache_delitem :: "'k \<Rightarrow> ('k, 'v, unit) stmt" where
  "cache_delitem key = (\<lambda>s. case map_of (lru_cache s) key of
       None \<Rightarrow> (Inl KeyError, s)
     | Some l \<Rightarrow> (Inr (), s\<lparr>lru_cache := AList.delete key (lru_cache s)\<rparr>))"

definition incr_hits :: "('k, 'v, unit) stmt" where
  "incr_hits = (\<lambda>s. (Inr (), s\<lparr>lru_hits := lru_hits s + 1\<rparr>))"

definition incr_misses :: "('k, 'v, unit) stmt" where
  "incr_misses = (\<lambda>s. (Inr (), s\<lparr>lru_misses := lru_misses s + 1\<rparr>))"

text \<open>Reads of the fields and of the dict: \<^verbatim>\<open>self._head\<close>, \<^verbatim>\<open>self._full\<close>,
  \<^verbatim>\<open>len(self._cache)\<close>, \<^verbatim>\<open>self._cache.get(key)\<close>, and \<^verbatim>\<open>not l\<close> on a list.\<close>

definition get_head :: "('k, 'v, ref) stmt" where
  "get_head = (\<lambda>s. (Inr (lru_head s), s))"

definition get_full :: "('k, 'v, bool) stmt" where
  "get_full = (\<lambda>s. (Inr (lru_full s), s))"

definition cache_len :: "('k, 'v, int) stmt" where
  "cache_len = (\<lambda>s. (Inr (int (length (lru_cache s))), s))"

definition cache_get :: "'k \<Rightarrow> ('k, 'v, ref option) stmt" where
  "cache_get key = (\<lambda>s. (Inr (map_of (lru_cache s) key), s))"

definition cache_clear :: "('k, 'v, unit) stmt" where
  "cache_clear = (\<lambda>s. (Inr (), s\<lparr>lru_cache := []\<rparr>))"

definition is_empty :: "ref \<Rightarrow> ('k, 'v, bool) stmt" where
  "is_empty l = (\<lambda>s. (Inr (lru_heap s l = Empty_list), s))"

subsection \<open>\<^verbatim>\<open>LRUCache\<close>\<close>

text \<open>\<^verbatim>\<open>__init__\<close>: the head is a new empty list, at reference 0.\<close>

definition LRUCache_init :: "int \<Rightarrow> ('k, 'v) LRUCache" where
  "LRUCache_init maxsize =
     \<lparr>lru_maxsize = maxsize, lru_cache = [], lru_full = False, lru_head = 0,
      lru_hits = 0, lru_misses = 0, lru_heap = (\<lambda>_. Empty_list), lru_next_ref = 1\<rparr>"

text \<open>The \<^verbatim>\<open>maxsize\<close> property: its getter and its setter.\<close>

definition LRUCache_maxsize :: "('k, 'v, int) stmt" where
  "LRUCache_maxsize = (\<lambda>s. (Inr (lru_maxsize s), s))"

definition LRUCache_set_maxsize :: "int \<Rightarrow> ('k, 'v, unit) stmt" where
  "LRUCache_set_maxsize maxsize = (\<lambda>s. (Inr (), s\<lparr>lru_maxsize := maxsize\<rparr>))"

definition LRUCache_len :: "('k, 'v) LRUCache \<Rightarrow> nat" where
  "LRUCache_len s = length (lru_cache s)"

definition LRUCache_bool :: "('k, 'v) LRUCache \<Rightarrow> bool" where
  "LRUCache_bool s = (lru_cache s \<noteq> [])"

text \<open>\<^verbatim>\<open>grow\<close>, line 76: \<^verbatim>\<open>self.maxsize = max(self.maxsize, maxsize)\<close>.\<close>

definition LRUCache_grow :: "int \<Rightarrow> ('k, 'v, unit) stmt" where
  "LRUCache_grow maxsize =
     seq LRUCache_maxsize (\<lambda>current.
     LRUCache_set_maxsize (max current maxsize))"

text \<open>\<^verbatim>\<open>clear\<close>, lines 81 to 83; the head becomes a new empty list.\<close>

definition LRUCache_clear :: "('k, 'v, unit) stmt" where
  "LRUCache_clear =
     seq cache_clear (\<lambda>_.
     seq (set_full False) (\<lambda>_.
     seq new_empty (\<lambda>l.
     set_head l)))"

definition LRUCache_keys :: "('k, 'v) LRUCache \<Rightarrow> 'k list" where
  "LRUCache_keys s = map fst (lru_cache s)"

definition LRUCache_contains :: "'k \<Rightarrow> ('k, 'v) LRUCache \<Rightarrow> bool" where
  "LRUCache_contains key s = (map_of (lru_cache s) key \<noteq> None)"

text \<open>
  The eviction of \<^verbatim>\<open>set\<close>, lines 114 to 119:
  \<^verbatim>\<open>self._full = True; head = self._head; last = head[0]; last[0][1] = head;
  head[0] = last[0]; del self._cache[last[2]]\<close>.
\<close>

definition evict :: "('k, 'v, unit) stmt" where
  "evict =
     seq (set_full True) (\<lambda>_.
     seq get_head (\<lambda>head.
     seq (get_PREV head) (\<lambda>last.
     seq (get_PREV last) (\<lambda>last0.
     seq (set_NEXT last0 head) (\<lambda>_.
     seq (get_PREV last) (\<lambda>last0'.
     seq (set_PREV head last0') (\<lambda>_.
     seq (get_KEY last) (\<lambda>k.
     cache_delitem k))))))))"

text \<open>
  The insertion of \<^verbatim>\<open>set\<close>, lines 100 to 110. In an empty ring the head list is
  written in place and refers to itself; otherwise a new list object is linked before the
  old head: \<^verbatim>\<open>self._head = [head[0], head, key, value]; head[0][1] = self._head;
  head[0] = self._head\<close>. Then \<^verbatim>\<open>self._cache[key] = self._head\<close>.
\<close>

definition insert_head :: "'k \<Rightarrow> 'v \<Rightarrow> ('k, 'v, unit) stmt" where
  "insert_head key value =
     seq get_head (\<lambda>head.
     seq (is_empty head) (\<lambda>empty.
     seq (if empty
          then assign_all head head head key value
          else
            seq (get_PREV head) (\<lambda>head0.
            seq (new_link head0 head key value) (\<lambda>new.
            seq (set_head new) (\<lambda>_.
            seq get_head (\<lambda>new1.
            seq (get_PREV head) (\<lambda>head0'.
            seq (set_NEXT head0' new1) (\<lambda>_.
            seq get_head (\<lambda>new2.
            set_PREV head new2)))))))) (\<lambda>_.
     seq get_head (\<lambda>new.
     cache_setitem key new))))"

text \<open>
  \<^verbatim>\<open>set\<close>, lines 97 to 119. A key that is in the dict takes neither branch. After the
  insertion of a new key the last entry is evicted when the cache is full or has grown
  over \<^verbatim>\<open>maxsize\<close>.
\<close>

definition LRUCache_set :: "'k \<Rightarrow> 'v \<Rightarrow> ('k, 'v, unit) stmt" where
  "LRUCache_set key value =
     seq (cache_get key) (\<lambda>link.
     (case link of
        Some l \<Rightarrow> ret ()
      | None \<Rightarrow>
         seq (insert_head key value) (\<lambda>_.
         seq get_full (\<lambda>full.
         seq cache_len (\<lambda>len.
         seq LRUCache_maxsize (\<lambda>maxsize.
         if full \<or> len > maxsize then evict else ret ()))))))"

text \<open>
  The promotion of \<^verbatim>\<open>get\<close> and \<^verbatim>\<open>__getitem__\<close>, lines 150 to 156 and 167 to 172:
  \<^verbatim>\<open>link[0][1] = link[1]; link[1][0] = link[0]; head = self._head;
  link[0] = head[0]; link[1] = head; self._head = head[0][1] = head[0] = link\<close>.
  The chained assignment stores left to right.
\<close>

definition promote :: "ref \<Rightarrow> ('k, 'v, unit) stmt" where
  "promote link =
     seq (get_NEXT link) (\<lambda>link1.
     seq (get_PREV link) (\<lambda>link0.
     seq (set_NEXT link0 link1) (\<lambda>_.
     seq (get_PREV link) (\<lambda>link0'.
     seq (get_NEXT link) (\<lambda>link1'.
     seq (set_PREV link1' link0') (\<lambda>_.
     seq get_head (\<lambda>head.
     seq (get_PREV head) (\<lambda>head0.
     seq (set_PREV link head0) (\<lambda>_.
     seq (set_NEXT link head) (\<lambda>_.
     seq (set_head link) (\<lambda>_.
     seq (get_PREV head) (\<lambda>head0'.
     seq (set_NEXT head0' link) (\<lambda>_.
     set_PREV head link)))))))))))))"

text \<open>
  The hit of \<^verbatim>\<open>get\<close> and \<^verbatim>\<open>__getitem__\<close>, lines 148 to 158 and 166 to 174: promote
  unless \<^verbatim>\<open>link is self._head\<close>, count the hit, return \<^verbatim>\<open>link[3]\<close>.
\<close>

definition found :: "ref \<Rightarrow> ('k, 'v, 'v) stmt" where
  "found link =
     seq get_head (\<lambda>head.
     seq (if link \<noteq> head then promote link else ret ()) (\<lambda>_.
     seq incr_hits (\<lambda>_.
     get_VALUE link)))"

definition LRUCache_get :: "'k \<Rightarrow> 'd \<Rightarrow> ('k, 'v, ('v, 'd) lookup) stmt" where
  "LRUCache_get key dflt =
     seq (cache_get key) (\<lambda>link.
     (case link of
        None \<Rightarrow> seq incr_misses (\<lambda>_. ret (Default dflt))
      | Some l \<Rightarrow> seq (found l) (\<lambda>v. ret (Value v))))"

definition LRUCache_getitem :: "'k \<Rightarrow> ('k, 'v, 'v) stmt" where
  "LRUCache_getitem key =
     seq (cache_get key) (\<lambda>link.
     (case link of
        None \<Rightarrow> seq incr_misses (\<lambda>_. raise KeyError)
      | Some l \<Rightarrow> found l))"

subsection \<open>\<^verbatim>\<open>FIFOCache\<close>\<close>

record ('k, 'v) FIFOCache =
  fifo_maxsize :: int
  fifo_cache :: "('k \<times> 'v) list"
  fifo_hits :: int
  fifo_misses :: int

definition FIFOCache_init :: "int \<Rightarrow> ('k, 'v) FIFOCache" where
  "FIFOCache_init maxsize =
     \<lparr>fifo_maxsize = maxsize, fifo_cache = [], fifo_hits = 0, fifo_misses = 0\<rparr>"

definition FIFOCache_len :: "('k, 'v) FIFOCache \<Rightarrow> nat" where
  "FIFOCache_len s = length (fifo_cache s)"

definition FIFOCache_keys :: "('k, 'v) FIFOCache \<Rightarrow> 'k list" where
  "FIFOCache_keys s = map fst (fifo_cache s)"

definition FIFOCache_clear :: "('k, 'v) FIFOCache \<Rightarrow> ('k, 'v) FIFOCache" where
  "FIFOCache_clear s = s\<lparr>fifo_cache := []\<rparr>"

text \<open>
  \<^verbatim>\<open>set\<close>, lines 226 to 228. \<^verbatim>\<open>next(iter(self._cache.keys()))\<close> is the first key of
  the dict and raises \<^verbatim>\<open>StopIteration\<close> on an empty dict; \<^verbatim>\<open>pop\<close> removes that key.
\<close>

definition FIFOCache_set ::
  "'k \<Rightarrow> 'v \<Rightarrow> ('k, 'v) FIFOCache \<Rightarrow> (error + unit) \<times> ('k, 'v) FIFOCache" where
  "FIFOCache_set key value s =
     (if map_of (fifo_cache s) key = None \<and> int (length (fifo_cache s)) \<ge> fifo_maxsize s
      then (case fifo_cache s of
              [] \<Rightarrow> (Inl StopIteration, s)
            | (k0, v0) # rest \<Rightarrow>
                (Inr (), s\<lparr>fifo_cache :=
                   AList.update key value (AList.delete k0 (fifo_cache s))\<rparr>))
      else (Inr (), s\<lparr>fifo_cache := AList.update key value (fifo_cache s)\<rparr>))"

text \<open>\<^verbatim>\<open>get\<close>, line 243: \<^verbatim>\<open>self._cache.get(key, default)\<close>; nothing is written.\<close>

definition FIFOCache_get ::
  "'k \<Rightarrow> 'd \<Rightarrow> ('k, 'v) FIFOCache \<Rightarrow> ('v, 'd) lookup \<times> ('k, 'v) FIFOCache" where
  "FIFOCache_get key dflt s =
     (case map_of (fifo_cache s) key of
        None \<Rightarrow> (Default dflt, s)
      | Some v \<Rightarrow> (Value v, s))"

text \<open>
  \<^verbatim>\<open>__getitem__\<close>, lines 246 to 252: the \<^verbatim>\<open>finally\<close> clause runs after the
  \<^verbatim>\<open>return\<close> and after the \<^verbatim>\<open>except\<close> clause alike.
\<close>

definition FIFOCache_getitem ::
  "'k \<Rightarrow> ('k, 'v) FIFOCache \<Rightarrow> (error + 'v) \<times> ('k, 'v) FIFOCache" where
  "FIFOCache_getitem key s =
     (case map_of (fifo_cache s) key of
        Some v \<Rightarrow> (Inr v, s\<lparr>fifo_hits := fifo_hits s + 1\<rparr>)
      | None \<Rightarrow>
          (let s1 = s\<lparr>fifo_misses := fifo_misses s + 1\<rparr>
           in (Inl KeyError, s1\<lparr>fifo_hits := fifo_hits s1 + 1\<rparr>)))"

text \<open>\<^verbatim>\<open>__container__\<close>, line 255 (the name is the source's): \<^verbatim>\<open>key in self._cache\<close>.\<close>

definition FIFOCache_container :: "'k \<Rightarrow> ('k, 'v) FIFOCache \<Rightarrow> bool" where
  "FIFOCache_container key s = (map_of (fifo_cache s) key \<noteq> None)"

text \<open>Sequences of \<^verbatim>\<open>set\<close> calls; the first call that raises ends the run.\<close>

fun LRUCache_sets :: "('k \<times> 'v) list \<Rightarrow> ('k, 'v, unit) stmt" where
  "LRUCache_sets [] s = (Inr (), s)"
| "LRUCache_sets ((key, value) # kvs) s =
     (case LRUCache_set key value s of
        (Inl e, s') \<Rightarrow> (Inl e, s')
      | (Inr u, s') \<Rightarrow> LRUCache_sets kvs s')"

fun FIFOCache_sets ::
  "('k \<times> 'v) list \<Rightarrow> ('k, 'v) FIFOCache \<Rightarrow> (error + unit) \<times> ('k, 'v) FIFOCache" where
  "FIFOCache_sets [] s = (Inr (), s)"
| "FIFOCache_sets ((key, value) # kvs) s =
     (case FIFOCache_set key value s of
        (Inl e, s') \<Rightarrow> (Inl e, s')
      | (Inr u, s') \<Rightarrow> FIFOCache_sets kvs s')"

text \<open>
  Repeated lookups of one key, each by \<^verbatim>\<open>get\<close> with a default or by
  \<^verbatim>\<open>__getitem__\<close>; the first call that raises ends the run.
\<close>

datatype 'd form = By_get 'd | By_getitem

fun LRUCache_lookup :: "'k \<Rightarrow> 'd form \<Rightarrow> ('k, 'v, ('v, 'd) lookup) stmt" where
  "LRUCache_lookup key (By_get dflt) = LRUCache_get key dflt"
| "LRUCache_lookup key By_getitem = seq (LRUCache_getitem key) (\<lambda>v. ret (Value v))"

fun LRUCache_lookups :: "'k \<Rightarrow> 'd form list \<Rightarrow> ('k, 'v, ('v, 'd) lookup list) stmt" where
  "LRUCache_lookups key [] = ret []"
| "LRUCache_lookups key (f # fs) =
     seq (LRUCache_lookup key f) (\<lambda>r.
     seq (LRUCache_lookups key fs) (\<lambda>rs.
     ret (r # rs)))"

section \<open>The recency ring\<close>

text \<open>
  \<open>chain h p rs q\<close>: in the store \<open>h\<close> the list objects \<open>rs\<close> are linked one to the
  next by \<^verbatim>\<open>NEXT\<close> and back by \<^verbatim>\<open>PREV\<close>; the first one's \<^verbatim>\<open>PREV\<close> is \<open>p\<close> and the
  last one's \<^verbatim>\<open>NEXT\<close> is \<open>q\<close>. The ring of a cache is a chain closed on itself.
\<close>

fun links :: "('k, 'v) link \<Rightarrow> ref \<Rightarrow> ref \<Rightarrow> bool" where
  "links Empty_list p n = False"
| "links (Link p' n' k v) p n = (p' = p \<and> n' = n)"

fun has_key :: "('k, 'v) link \<Rightarrow> 'k \<Rightarrow> bool" where
  "has_key Empty_list key = False"
| "has_key (Link p n k v) key = (k = key)"

fun chain :: "(ref \<Rightarrow> ('k, 'v) link) \<Rightarrow> ref \<Rightarrow> ref list \<Rightarrow> ref \<Rightarrow> bool" where
  "chain h p [] q = True"
| "chain h p [a] q = links (h a) p q"
| "chain h p (a # b # rs) q = (links (h a) p b \<and> chain h a (b # rs) q)"

text \<open>The store after \<^verbatim>\<open>l[0] = x\<close> and after \<^verbatim>\<open>l[1] = x\<close> on a list that is not empty.\<close>

definition upd_PREV ::
  "ref \<Rightarrow> ref \<Rightarrow> (ref \<Rightarrow> ('k, 'v) link) \<Rightarrow> (ref \<Rightarrow> ('k, 'v) link)" where
  "upd_PREV l x h = (case h l of Empty_list \<Rightarrow> h | Link p n k v \<Rightarrow> h(l := Link x n k v))"

definition upd_NEXT ::
  "ref \<Rightarrow> ref \<Rightarrow> (ref \<Rightarrow> ('k, 'v) link) \<Rightarrow> (ref \<Rightarrow> ('k, 'v) link)" where
  "upd_NEXT l x h = (case h l of Empty_list \<Rightarrow> h | Link p n k v \<Rightarrow> h(l := Link p x k v))"

text \<open>
  \<open>lru_wf s rs\<close>: the cache \<open>s\<close> is well formed and \<open>rs\<close> is its ring, from the head
  (most recently used) along \<^verbatim>\<open>NEXT\<close> to the last entry (least recently used). The dict
  has one key for every entry of the ring and refers to it; an empty ring has the empty
  list as head. Every list object in use was created: its reference is below
  \<^verbatim>\<open>lru_next_ref\<close>.
\<close>

definition lru_wf :: "('k, 'v) LRUCache \<Rightarrow> ref list \<Rightarrow> bool" where
  "lru_wf s rs =
     (distinct rs \<and> (\<forall>a \<in> set rs. a < lru_next_ref s) \<and> lru_head s < lru_next_ref s \<and>
      (if rs = [] then lru_heap s (lru_head s) = Empty_list
       else hd rs = lru_head s \<and> chain (lru_heap s) (last rs) rs (lru_head s)) \<and>
      distinct (map fst (lru_cache s)) \<and> distinct (map snd (lru_cache s)) \<and>
      set (map snd (lru_cache s)) = set rs \<and>
      (\<forall>(k, a) \<in> set (lru_cache s). has_key (lru_heap s a) k))"

text \<open>
  \<open>lru_inv s rs\<close>: what holds of a cache constructed with a positive \<^verbatim>\<open>maxsize\<close> after
  any calls of \<^verbatim>\<open>set\<close>, \<^verbatim>\<open>get\<close>, \<^verbatim>\<open>__getitem__\<close>, \<^verbatim>\<open>clear\<close> and \<^verbatim>\<open>grow\<close>: it is
  well formed, holds at most \<^verbatim>\<open>maxsize\<close> entries, and is not empty once it is full.
\<close>

definition lru_inv :: "('k, 'v) LRUCache \<Rightarrow> ref list \<Rightarrow> bool" where
  "lru_inv s rs =
     (lru_wf s rs \<and> 1 \<le> lru_maxsize s \<and> int (length rs) \<le> lru_maxsize s \<and>
      (lru_full s \<longrightarrow> rs \<noteq> []))"

text \<open>A statement that leaves \<^verbatim>\<open>maxsize\<close> as it was, whether it returns or raises.\<close>

definition keeps_maxsize :: "('k, 'v, 'a) stmt \<Rightarrow> bool" where
  "keeps_maxsize m = (\<forall>s. lru_maxsize (snd (m s)) = lru_maxsize s)"

section \<open>Evaluation of statements\<close>

lemmas stmt_defs = ret_def raise_def seq_def get_PREV_def get_NEXT_def get_KEY_def get_VALUE_def
  set_PREV_def set_NEXT_def assign_all_def new_link_def new_empty_def set_head_def set_full_def
  cache_setitem_def cache_delitem_def incr_hits_def incr_misses_def
  get_head_def get_full_def cache_len_def cache_get_def cache_clear_def is_empty_def
  LRUCache_maxsize_def LRUCache_set_maxsize_def

lemma length_update:
  "length (AList.update k v al) = (if k \<in> fst ` set al then length al else Suc (length al))"
  by (induction al) auto

section \<open>Properties of \<^verbatim>\<open>FIFOCache\<close>\<close>

text \<open>
  C10: on a \<^verbatim>\<open>FIFOCache\<close> constructed with \<^verbatim>\<open>maxsize \<le> 0\<close>, the first \<^verbatim>\<open>set\<close> call
  raises (\<^verbatim>\<open>StopIteration\<close>, from taking the first key of the empty dict) and inserts
  nothing: the cache is as it was constructed.
\<close>

theorem FIFOCache_set_nonpositive_maxsize_raises:
  "maxsize \<le> 0 \<Longrightarrow>
   FIFOCache_set key value (FIFOCache_init maxsize) = (Inl StopIteration, FIFOCache_init maxsize)"
  by (simp add: FIFOCache_set_def FIFOCache_init_def)

theorem FIFOCache_set_nonpositive_maxsize_raises_witness:
  "(0::int) \<le> 0 \<and>
   FIFOCache_set ''a'' (1::int) (FIFOCache_init 0) = (Inl StopIteration, FIFOCache_init 0)"
  using FIFOCache_set_nonpositive_maxsize_raises [of 0 "''a''" "1::int"] by simp

text \<open>
  C5: on a key that is absent, \<^verbatim>\<open>FIFOCache.__getitem__\<close> raises \<^verbatim>\<open>KeyError\<close> and
  counts one miss and one hit: the \<^verbatim>\<open>finally\<close> clause runs after the \<^verbatim>\<open>except\<close>
  clause. Nothing else changes.
\<close>

theorem FIFOCache_getitem_absent:
  "\<not> FIFOCache_container key s \<Longrightarrow>
   FIFOCache_getitem key s =
     (Inl KeyError, s\<lparr>fifo_misses := fifo_misses s + 1, fifo_hits := fifo_hits s + 1\<rparr>)"
  by (simp add: FIFOCache_container_def FIFOCache_getitem_def)

theorem FIFOCache_getitem_absent_witness:
  "\<not> FIFOCache_container ''a'' (FIFOCache_init 2 :: (string, int) FIFOCache) \<and>
   FIFOCache_getitem ''a'' (FIFOCache_init 2 :: (string, int) FIFOCache) =
     (Inl KeyError, \<lparr>fifo_maxsize = 2, fifo_cache = [], fifo_hits = 1, fifo_misses = 1\<rparr>)"
proof -
  have h: "\<not> FIFOCache_container ''a'' (FIFOCache_init 2 :: (string, int) FIFOCache)"
    by (simp add: FIFOCache_container_def FIFOCache_init_def)
  show ?thesis using h FIFOCache_getitem_absent [OF h] by (simp add: FIFOCache_init_def)
qed

text \<open>
  C7: on a key that is present, \<^verbatim>\<open>FIFOCache.set\<close> returns, writes the value in place
  (\<^verbatim>\<open>self._cache[key] = value\<close> only), leaves the order of the keys and the number of
  entries as they were, and changes no other key's value: nothing is evicted, whatever
  \<^verbatim>\<open>maxsize\<close> is.
\<close>

theorem FIFOCache_set_present_overwrites:
  "FIFOCache_container key s \<Longrightarrow>
   FIFOCache_set key value s =
     (Inr (), s\<lparr>fifo_cache := AList.update key value (fifo_cache s)\<rparr>) \<and>
   FIFOCache_keys (snd (FIFOCache_set key value s)) = FIFOCache_keys s \<and>
   FIFOCache_len (snd (FIFOCache_set key value s)) = FIFOCache_len s \<and>
   map_of (fifo_cache (snd (FIFOCache_set key value s))) = (map_of (fifo_cache s))(key \<mapsto> value)"
  by (auto simp: FIFOCache_container_def FIFOCache_set_def FIFOCache_keys_def FIFOCache_len_def
      update_keys map_of_eq_None_iff update_conv' length_update)

theorem FIFOCache_set_present_overwrites_witness:
  "FIFOCache_container ''a''
     \<lparr>fifo_maxsize = 2, fifo_cache = [(''a'', 1::int), (''b'', 2)], fifo_hits = 0, fifo_misses = 0\<rparr> \<and>
   FIFOCache_set ''a'' 7
     \<lparr>fifo_maxsize = 2, fifo_cache = [(''a'', 1::int), (''b'', 2)], fifo_hits = 0, fifo_misses = 0\<rparr> =
     (Inr (), \<lparr>fifo_maxsize = 2, fifo_cache = [(''a'', 7), (''b'', 2)],
               fifo_hits = 0, fifo_misses = 0\<rparr>)"
proof -
  have h: "FIFOCache_container ''a''
     \<lparr>fifo_maxsize = 2, fifo_cache = [(''a'', 1::int), (''b'', 2)], fifo_hits = 0, fifo_misses = 0\<rparr>"
    by (simp add: FIFOCache_container_def)
  show ?thesis using h FIFOCache_set_present_overwrites [OF h, of 7] by simp
qed

text \<open>
  C8: on a new \<^verbatim>\<open>FIFOCache\<close> with \<^verbatim>\<open>maxsize\<close> 2 and distinct keys \<open>A\<close>, \<open>B\<close>, \<open>C\<close>: after
  \<^verbatim>\<open>set(A); set(B)\<close> the keys are \<open>A, B\<close>; \<^verbatim>\<open>set(C)\<close> then evicts \<open>A\<close>, the oldest key, and
  leaves \<open>B, C\<close>; a \<^verbatim>\<open>get\<close> of \<open>A\<close> with a default returns the default.
\<close>

theorem FIFOCache_evicts_oldest:
  "A \<noteq> B \<Longrightarrow> A \<noteq> C \<Longrightarrow> B \<noteq> C \<Longrightarrow>
   FIFOCache_sets [(A, a), (B, b)] (FIFOCache_init 2) =
     (Inr (), \<lparr>fifo_maxsize = 2, fifo_cache = [(A, a), (B, b)], fifo_hits = 0, fifo_misses = 0\<rparr>) \<and>
   FIFOCache_sets [(A, a), (B, b), (C, c)] (FIFOCache_init 2) =
     (Inr (), \<lparr>fifo_maxsize = 2, fifo_cache = [(B, b), (C, c)], fifo_hits = 0, fifo_misses = 0\<rparr>) \<and>
   FIFOCache_get A d (snd (FIFOCache_sets [(A, a), (B, b), (C, c)] (FIFOCache_init 2))) =
     (Default d, \<lparr>fifo_maxsize = 2, fifo_cache = [(B, b), (C, c)], fifo_hits = 0, fifo_misses = 0\<rparr>)"
  by (simp add: FIFOCache_set_def FIFOCache_init_def FIFOCache_get_def)

theorem FIFOCache_evicts_oldest_witness:
  "''A'' \<noteq> ''B'' \<and> ''A'' \<noteq> ''C'' \<and> ''B'' \<noteq> ''C'' \<and>
   FIFOCache_keys (snd (FIFOCache_sets [(''A'', 1::int), (''B'', 2), (''C'', 3)] (FIFOCache_init 2))) =
     [''B'', ''C''] \<and>
   fst (FIFOCache_get ''A'' ()
     (snd (FIFOCache_sets [(''A'', 1::int), (''B'', 2), (''C'', 3)] (FIFOCache_init 2)))) = Default ()"
proof -
  have h: "''A'' \<noteq> ''B''" "''A'' \<noteq> ''C''" "''B'' \<noteq> ''C''" by simp_all
  show ?thesis
    using h FIFOCache_evicts_oldest [OF h, of "1::int" 2 3 "()"]
    by (simp add: FIFOCache_keys_def FIFOCache_get_def FIFOCache_set_def FIFOCache_init_def)
qed

section \<open>Properties of \<^verbatim>\<open>LRUCache\<close> that need no invariant\<close>

text \<open>
  C2: on a key that is present, \<^verbatim>\<open>LRUCache.set\<close> returns and leaves the whole cache as it
  was: the value is not stored, the ring and the head are not touched, nothing is
  evicted, and the dict, the counters and the full flag are the same.
\<close>

theorem LRUCache_set_present_noop:
  "LRUCache_contains key s \<Longrightarrow> LRUCache_set key value s = (Inr (), s)"
  by (auto simp: LRUCache_contains_def LRUCache_set_def stmt_defs)

theorem LRUCache_set_present_noop_witness:
  "LRUCache_contains ''a'' (snd (LRUCache_set ''a'' (1::int) (LRUCache_init 2))) \<and>
   LRUCache_set ''a'' 5 (snd (LRUCache_set ''a'' (1::int) (LRUCache_init 2)))
     = (Inr (), snd (LRUCache_set ''a'' (1::int) (LRUCache_init 2)))"
proof -
  have h: "LRUCache_contains ''a'' (snd (LRUCache_set ''a'' (1::int) (LRUCache_init 2)))"
    by (simp add: LRUCache_contains_def LRUCache_set_def LRUCache_init_def insert_head_def
        stmt_defs)
  show ?thesis using h LRUCache_set_present_noop [OF h, of 5] by simp
qed

text \<open>
  C3: on a new \<^verbatim>\<open>LRUCache\<close> with \<^verbatim>\<open>maxsize\<close> 2, \<^verbatim>\<open>set("a", 1); set("b", 2)\<close> return;
  \<^verbatim>\<open>get("a")\<close> returns 1 and leaves \<^verbatim>\<open>hits\<close> at 1; \<^verbatim>\<open>set("c", 3)\<close> returns and evicts
  \<^verbatim>\<open>"b"\<close>: the keys were \<^verbatim>\<open>a, b\<close> and are \<^verbatim>\<open>a, c\<close>, \<^verbatim>\<open>"b"\<close> is not contained and \<^verbatim>\<open>"a"\<close> is.
\<close>

theorem LRUCache_scenario:
  "(let s0 = LRUCache_init 2;
        (r1, s1) = LRUCache_set ''a'' (1::int) s0;
        (r2, s2) = LRUCache_set ''b'' 2 s1;
        (r3, s3) = LRUCache_get ''a'' () s2;
        (r4, s4) = LRUCache_set ''c'' 3 s3
    in r1 = Inr () \<and> r2 = Inr () \<and> r3 = Inr (Value 1) \<and> lru_hits s3 = 1 \<and> r4 = Inr () \<and>
       LRUCache_keys s3 = [''a'', ''b''] \<and> LRUCache_keys s4 = [''a'', ''c''] \<and>
       \<not> LRUCache_contains ''b'' s4 \<and> LRUCache_contains ''a'' s4)"
  by (simp add: LRUCache_init_def LRUCache_set_def LRUCache_get_def LRUCache_keys_def
      LRUCache_contains_def insert_head_def evict_def promote_def found_def stmt_defs Let_def)

subsection \<open>\<^verbatim>\<open>maxsize\<close>\<close>

lemma keeps_maxsize_seq:
  "keeps_maxsize m \<Longrightarrow> (\<And>x. keeps_maxsize (f x)) \<Longrightarrow> keeps_maxsize (seq m f)"
  by (auto simp: keeps_maxsize_def seq_def split: prod.splits sum.splits)
    (metis snd_conv)+

lemma keeps_maxsize_if:
  "keeps_maxsize m \<Longrightarrow> keeps_maxsize n \<Longrightarrow> keeps_maxsize (if b then m else n)"
  by simp

lemma keeps_maxsize_case:
  "keeps_maxsize a \<Longrightarrow> (\<And>x. keeps_maxsize (b x)) \<Longrightarrow>
   keeps_maxsize (case opt of None \<Rightarrow> a | Some x \<Rightarrow> b x)"
  by (cases opt) auto

lemma keeps_maxsize_prims:
  "keeps_maxsize (ret x)" "keeps_maxsize (raise e)"
  "keeps_maxsize (get_PREV l)" "keeps_maxsize (get_NEXT l)"
  "keeps_maxsize (get_KEY l)" "keeps_maxsize (get_VALUE l)"
  "keeps_maxsize (set_PREV l r)" "keeps_maxsize (set_NEXT l r)"
  "keeps_maxsize (assign_all l p n k v)" "keeps_maxsize (new_link p n k v)"
  "keeps_maxsize new_empty" "keeps_maxsize (set_head l)" "keeps_maxsize (set_full b)"
  "keeps_maxsize (cache_setitem key l)" "keeps_maxsize (cache_delitem key)"
  "keeps_maxsize incr_hits" "keeps_maxsize incr_misses"
  "keeps_maxsize get_head" "keeps_maxsize get_full" "keeps_maxsize cache_len"
  "keeps_maxsize (cache_get key)" "keeps_maxsize cache_clear" "keeps_maxsize (is_empty l)"
  "keeps_maxsize LRUCache_maxsize"
  by (auto simp: keeps_maxsize_def stmt_defs split: link.splits option.splits)

lemmas keeps_maxsize_intros = keeps_maxsize_seq keeps_maxsize_if keeps_maxsize_case
  keeps_maxsize_prims

lemma keeps_maxsize_evict: "keeps_maxsize evict"
  unfolding evict_def by (intro keeps_maxsize_intros)

lemma keeps_maxsize_promote: "keeps_maxsize (promote link)"
  unfolding promote_def by (intro keeps_maxsize_intros)

lemma keeps_maxsize_found: "keeps_maxsize (found link)"
  unfolding found_def by (intro keeps_maxsize_intros keeps_maxsize_promote)

lemma keeps_maxsize_clear: "keeps_maxsize LRUCache_clear"
  unfolding LRUCache_clear_def by (intro keeps_maxsize_intros)

lemma keeps_maxsize_get: "keeps_maxsize (LRUCache_get key d)"
  unfolding LRUCache_get_def by (intro keeps_maxsize_intros keeps_maxsize_found)

lemma keeps_maxsize_getitem: "keeps_maxsize (LRUCache_getitem key)"
  unfolding LRUCache_getitem_def by (intro keeps_maxsize_intros keeps_maxsize_found)

lemma keeps_maxsize_set: "keeps_maxsize (LRUCache_set key value)"
  unfolding LRUCache_set_def insert_head_def
  by (intro keeps_maxsize_intros keeps_maxsize_evict)

text \<open>
  C4, as the claim states it, fails: the setter of the \<^verbatim>\<open>maxsize\<close> property is public
  and stores any value, so \<^verbatim>\<open>cache.maxsize = 1\<close> on a cache constructed with
  \<^verbatim>\<open>maxsize\<close> 5 shrinks it.
\<close>

theorem LRUCache_maxsize_setter_shrinks:
  "lru_maxsize (snd (LRUCache_set_maxsize 1 (LRUCache_init 5 :: (string, int) LRUCache)))
     < lru_maxsize (LRUCache_init 5 :: (string, int) LRUCache)"
  by (simp add: LRUCache_set_maxsize_def LRUCache_init_def)

text \<open>
  C4, amended: \<^verbatim>\<open>grow(n)\<close> returns and sets \<^verbatim>\<open>maxsize\<close> to the larger of the current
  \<^verbatim>\<open>maxsize\<close> and \<open>n\<close>, changing nothing else: \<^verbatim>\<open>maxsize\<close> stays when it is at least
  \<open>n\<close>, becomes exactly \<open>n\<close> otherwise, and never decreases. \<^verbatim>\<open>set\<close>, \<^verbatim>\<open>get\<close>,
  \<^verbatim>\<open>__getitem__\<close> and \<^verbatim>\<open>clear\<close> leave \<^verbatim>\<open>maxsize\<close> as it was, whether they return or
  raise. Only an assignment to the \<^verbatim>\<open>maxsize\<close> property can decrease it.
\<close>

theorem LRUCache_maxsize_only_grows:
  "LRUCache_grow n s = (Inr (), s\<lparr>lru_maxsize := max (lru_maxsize s) n\<rparr>) \<and>
   lru_maxsize (snd (LRUCache_grow n s)) = (if n \<le> lru_maxsize s then lru_maxsize s else n) \<and>
   lru_maxsize s \<le> lru_maxsize (snd (LRUCache_grow n s)) \<and>
   lru_maxsize (snd (LRUCache_set key value s)) = lru_maxsize s \<and>
   lru_maxsize (snd (LRUCache_get key d s)) = lru_maxsize s \<and>
   lru_maxsize (snd (LRUCache_getitem key s)) = lru_maxsize s \<and>
   lru_maxsize (snd (LRUCache_clear s)) = lru_maxsize s"
proof -
  have "lru_maxsize (snd (LRUCache_set key value s)) = lru_maxsize s"
    by (rule keeps_maxsize_set [unfolded keeps_maxsize_def, rule_format])
  moreover have "lru_maxsize (snd (LRUCache_get key d s)) = lru_maxsize s"
    by (rule keeps_maxsize_get [unfolded keeps_maxsize_def, rule_format])
  moreover have "lru_maxsize (snd (LRUCache_getitem key s)) = lru_maxsize s"
    by (rule keeps_maxsize_getitem [unfolded keeps_maxsize_def, rule_format])
  moreover have "lru_maxsize (snd (LRUCache_clear s)) = lru_maxsize s"
    by (rule keeps_maxsize_clear [unfolded keeps_maxsize_def, rule_format])
  ultimately show ?thesis
    by (simp add: LRUCache_grow_def stmt_defs)
qed

subsection \<open>Lookups that fail\<close>

text \<open>
  C6, as the claim states it, fails: a \<^verbatim>\<open>get\<close> of an absent key on a new \<^verbatim>\<open>LRUCache\<close>
  counts a miss, so the cache is not as it was.
\<close>

theorem LRUCache_failed_get_changes_state:
  "\<not> LRUCache_contains ''a'' (LRUCache_init 2 :: (string, int) LRUCache) \<and>
   lru_misses (snd (LRUCache_get ''a'' () (LRUCache_init 2 :: (string, int) LRUCache))) = 1 \<and>
   lru_misses (LRUCache_init 2 :: (string, int) LRUCache) = 0 \<and>
   snd (LRUCache_get ''a'' () (LRUCache_init 2 :: (string, int) LRUCache)) \<noteq> LRUCache_init 2"
proof -
  have m: "lru_misses (snd (LRUCache_get ''a'' () (LRUCache_init 2 :: (string, int) LRUCache))) = 1"
    by (simp add: LRUCache_get_def LRUCache_init_def stmt_defs)
  have z: "lru_misses (LRUCache_init 2 :: (string, int) LRUCache) = 0"
    by (simp add: LRUCache_init_def)
  have c: "\<not> LRUCache_contains ''a'' (LRUCache_init 2 :: (string, int) LRUCache)"
    by (simp add: LRUCache_contains_def LRUCache_init_def)
  from m z have "snd (LRUCache_get ''a'' () (LRUCache_init 2 :: (string, int) LRUCache))
      \<noteq> LRUCache_init 2"
    by (metis zero_neq_one)
  with m z c show ?thesis by simp
qed

text \<open>
  C6, amended: a lookup of an absent key changes nothing but counters. On an
  \<^verbatim>\<open>LRUCache\<close>, \<^verbatim>\<open>get\<close> returns the default and \<^verbatim>\<open>__getitem__\<close> raises \<^verbatim>\<open>KeyError\<close>,
  and each adds one to \<^verbatim>\<open>misses\<close> and leaves the dict, the ring, the head, the full
  flag, \<^verbatim>\<open>maxsize\<close> and \<^verbatim>\<open>hits\<close> as they were. On a \<^verbatim>\<open>FIFOCache\<close>, \<^verbatim>\<open>get\<close> returns the
  default and changes nothing at all, and \<^verbatim>\<open>__getitem__\<close> raises \<^verbatim>\<open>KeyError\<close>, adds
  one to \<^verbatim>\<open>misses\<close> and leaves the dict and \<^verbatim>\<open>maxsize\<close> as they were.
\<close>

theorem failed_lookup_changes_only_counters:
  "\<not> LRUCache_contains key s \<Longrightarrow> \<not> FIFOCache_container key' f \<Longrightarrow>
   LRUCache_get key d s = (Inr (Default d), s\<lparr>lru_misses := lru_misses s + 1\<rparr>) \<and>
   LRUCache_getitem key s = (Inl KeyError, s\<lparr>lru_misses := lru_misses s + 1\<rparr>) \<and>
   FIFOCache_get key' d' f = (Default d', f) \<and>
   fst (FIFOCache_getitem key' f) = Inl KeyError \<and>
   fifo_cache (snd (FIFOCache_getitem key' f)) = fifo_cache f \<and>
   fifo_maxsize (snd (FIFOCache_getitem key' f)) = fifo_maxsize f \<and>
   fifo_misses (snd (FIFOCache_getitem key' f)) = fifo_misses f + 1"
  by (simp add: LRUCache_contains_def FIFOCache_container_def LRUCache_get_def
      LRUCache_getitem_def FIFOCache_get_def FIFOCache_getitem_def stmt_defs)

theorem failed_lookup_changes_only_counters_witness:
  "\<not> LRUCache_contains ''a'' (LRUCache_init 2 :: (string, int) LRUCache) \<and>
   \<not> FIFOCache_container ''a'' (FIFOCache_init 2 :: (string, int) FIFOCache) \<and>
   LRUCache_get ''a'' () (LRUCache_init 2 :: (string, int) LRUCache) =
     (Inr (Default ()), (LRUCache_init 2) \<lparr>lru_misses := 1\<rparr>) \<and>
   LRUCache_getitem ''a'' (LRUCache_init 2 :: (string, int) LRUCache) =
     (Inl KeyError, (LRUCache_init 2) \<lparr>lru_misses := 1\<rparr>) \<and>
   FIFOCache_get ''a'' () (FIFOCache_init 2 :: (string, int) FIFOCache) =
     (Default (), FIFOCache_init 2)"
proof -
  have h1: "\<not> LRUCache_contains ''a'' (LRUCache_init 2 :: (string, int) LRUCache)"
    by (simp add: LRUCache_contains_def LRUCache_init_def)
  have h2: "\<not> FIFOCache_container ''a'' (FIFOCache_init 2 :: (string, int) FIFOCache)"
    by (simp add: FIFOCache_container_def FIFOCache_init_def)
  show ?thesis
    using h1 h2 failed_lookup_changes_only_counters [OF h1 h2, of "()" "()"]
    by (simp add: LRUCache_init_def)
qed

section \<open>The ring of \<^verbatim>\<open>LRUCache\<close> is kept well formed\<close>

subsection \<open>Writes to the store\<close>


lemma links_iff: "links c p n = (c \<noteq> Empty_list \<and> PREV c = p \<and> NEXT c = n)"
  by (cases c) auto

lemma has_key_iff: "has_key c k = (c \<noteq> Empty_list \<and> KEY c = k)"
  by (cases c) auto

lemma upd_PREV_other [simp]: "a \<noteq> l \<Longrightarrow> upd_PREV l x h a = h a"
  by (simp add: upd_PREV_def split: link.splits)

lemma upd_NEXT_other [simp]: "a \<noteq> l \<Longrightarrow> upd_NEXT l x h a = h a"
  by (simp add: upd_NEXT_def split: link.splits)

lemma upd_PREV_Empty [simp]: "(upd_PREV l x h a = Empty_list) = (h a = Empty_list)"
  by (simp add: upd_PREV_def split: link.splits)

lemma upd_NEXT_Empty [simp]: "(upd_NEXT l x h a = Empty_list) = (h a = Empty_list)"
  by (simp add: upd_NEXT_def split: link.splits)

lemma sel_upd_PREV [simp]:
  "PREV (upd_PREV l x h a) = (if a = l \<and> h l \<noteq> Empty_list then x else PREV (h a))"
  "NEXT (upd_PREV l x h a) = NEXT (h a)"
  "KEY (upd_PREV l x h a) = KEY (h a)"
  "VALUE (upd_PREV l x h a) = VALUE (h a)"
  by (auto simp: upd_PREV_def split: link.splits)

lemma sel_upd_NEXT [simp]:
  "NEXT (upd_NEXT l x h a) = (if a = l \<and> h l \<noteq> Empty_list then x else NEXT (h a))"
  "PREV (upd_NEXT l x h a) = PREV (h a)"
  "KEY (upd_NEXT l x h a) = KEY (h a)"
  "VALUE (upd_NEXT l x h a) = VALUE (h a)"
  by (auto simp: upd_NEXT_def split: link.splits)

subsection \<open>Chains\<close>

lemma chain_cong: "(\<And>a. a \<in> set rs \<Longrightarrow> h' a = h a) \<Longrightarrow> chain h' p rs q = chain h p rs q"
  by (induction h p rs q rule: chain.induct) auto

lemma chain_not_Empty: "chain h p rs q \<Longrightarrow> a \<in> set rs \<Longrightarrow> h a \<noteq> Empty_list"
  by (induction h p rs q rule: chain.induct) (auto simp: links_iff)

lemma chain_hd: "chain h p rs q \<Longrightarrow> rs \<noteq> [] \<Longrightarrow> PREV (h (hd rs)) = p"
  by (induction h p rs q rule: chain.induct) (auto simp: links_iff)

lemma chain_last: "chain h p rs q \<Longrightarrow> rs \<noteq> [] \<Longrightarrow> NEXT (h (last rs)) = q"
  by (induction h p rs q rule: chain.induct) (auto simp: links_iff)

lemma chain_append:
  "xs \<noteq> [] \<Longrightarrow> ys \<noteq> [] \<Longrightarrow>
   chain h p (xs @ ys) q = (chain h p xs (hd ys) \<and> chain h (last xs) ys q)"
proof (induction h p xs "q" rule: chain.induct)
  case (2 h p a q)
  then show ?case by (cases ys) auto
qed auto

lemma chain_upd_NEXT_last:
  "chain h p rs q \<Longrightarrow> distinct rs \<Longrightarrow> rs \<noteq> [] \<Longrightarrow> chain (upd_NEXT (last rs) q' h) p rs q'"
  by (induction h p rs q rule: chain.induct) (auto simp: links_iff)

lemma chain_upd_PREV_hd:
  "chain h p rs q \<Longrightarrow> distinct rs \<Longrightarrow> rs \<noteq> [] \<Longrightarrow> chain (upd_PREV (hd rs) p' h) p' rs q"
proof (cases rs)
  case (Cons a rs')
  assume c: "chain h p rs q" and d: "distinct rs"
  show ?thesis
  proof (cases rs')
    case Nil
    with Cons c show ?thesis by (simp add: links_iff)
  next
    case (Cons b rs'')
    have "chain (upd_PREV a p' h) a (b # rs'') q = chain h a (b # rs'') q"
      using d \<open>rs = a # rs'\<close> Cons by (intro chain_cong upd_PREV_other) auto
    with c \<open>rs = a # rs'\<close> Cons show ?thesis by (simp add: links_iff)
  qed
qed simp

lemma chain_insert:
  assumes "rs \<noteq> []" "distinct rs" "n \<notin> set rs" "chain h (last rs) rs (hd rs)"
  shows "chain (upd_PREV (hd rs) n (upd_NEXT (last rs) n (h(n := Link (last rs) (hd rs) k v))))
           (last rs) (n # rs) n"
proof -
  let ?h1 = "h(n := Link (last rs) (hd rs) k v)"
  let ?h2 = "upd_NEXT (last rs) n ?h1"
  let ?h3 = "upd_PREV (hd rs) n ?h2"
  have "chain ?h1 (last rs) rs (hd rs)"
    using assms by (subst chain_cong [where h = h]) auto
  then have "chain ?h2 (last rs) rs n" using assms by (intro chain_upd_NEXT_last)
  then have c3: "chain ?h3 n rs n" using assms by (intro chain_upd_PREV_hd)
  have "hd rs \<noteq> n" "last rs \<noteq> n" using assms by auto
  then have "?h3 n = Link (last rs) (hd rs) k v" by simp
  with c3 assms(1) show ?thesis by (cases rs) auto
qed

lemma chain_evict:
  assumes "xs \<noteq> []" "distinct (xs @ [t])" "chain h t (xs @ [t]) (hd xs)"
  shows "chain (upd_PREV (hd xs) (last xs) (upd_NEXT (last xs) (hd xs) h)) (last xs) xs (hd xs)"
proof -
  from assms have "chain h t xs t" by (simp add: chain_append)
  then have "chain (upd_NEXT (last xs) (hd xs) h) t xs (hd xs)"
    using assms by (intro chain_upd_NEXT_last) auto
  then show ?thesis using assms by (intro chain_upd_PREV_hd) auto
qed


subsection \<open>Statements on list objects that are not empty\<close>

lemma get_PREV_eval:
  "lru_heap s l \<noteq> Empty_list \<Longrightarrow> get_PREV l s = (Inr (PREV (lru_heap s l)), s)"
  by (cases "lru_heap s l") (auto simp: get_PREV_def)

lemma get_NEXT_eval:
  "lru_heap s l \<noteq> Empty_list \<Longrightarrow> get_NEXT l s = (Inr (NEXT (lru_heap s l)), s)"
  by (cases "lru_heap s l") (auto simp: get_NEXT_def)

lemma get_KEY_eval:
  "lru_heap s l \<noteq> Empty_list \<Longrightarrow> get_KEY l s = (Inr (KEY (lru_heap s l)), s)"
  by (cases "lru_heap s l") (auto simp: get_KEY_def)

lemma get_VALUE_eval:
  "lru_heap s l \<noteq> Empty_list \<Longrightarrow> get_VALUE l s = (Inr (VALUE (lru_heap s l)), s)"
  by (cases "lru_heap s l") (auto simp: get_VALUE_def)

lemma set_PREV_eval:
  "lru_heap s l \<noteq> Empty_list \<Longrightarrow>
   set_PREV l x s = (Inr (), s\<lparr>lru_heap := upd_PREV l x (lru_heap s)\<rparr>)"
  by (cases "lru_heap s l") (auto simp: set_PREV_def upd_PREV_def)

lemma set_NEXT_eval:
  "lru_heap s l \<noteq> Empty_list \<Longrightarrow>
   set_NEXT l x s = (Inr (), s\<lparr>lru_heap := upd_NEXT l x (lru_heap s)\<rparr>)"
  by (cases "lru_heap s l") (auto simp: set_NEXT_def upd_NEXT_def)

lemmas link_evals = get_PREV_eval get_NEXT_eval get_KEY_eval get_VALUE_eval
  set_PREV_eval set_NEXT_eval

lemmas plain_defs = ret_def raise_def seq_def assign_all_def new_link_def new_empty_def
  set_head_def set_full_def cache_setitem_def incr_hits_def incr_misses_def
  get_head_def get_full_def cache_len_def cache_get_def cache_clear_def is_empty_def
  LRUCache_maxsize_def LRUCache_set_maxsize_def

lemma insert_head_empty:
  "lru_heap s (lru_head s) = Empty_list \<Longrightarrow>
   insert_head key value s =
     (Inr (), s\<lparr>lru_heap := (lru_heap s)(lru_head s := Link (lru_head s) (lru_head s) key value),
                lru_cache := AList.update key (lru_head s) (lru_cache s)\<rparr>)"
  by (simp add: insert_head_def plain_defs)

lemma insert_head_nonempty:
  assumes "lru_heap s (lru_head s) \<noteq> Empty_list"
    and "lru_heap s (PREV (lru_heap s (lru_head s))) \<noteq> Empty_list"
    and "lru_head s \<noteq> lru_next_ref s"
    and "PREV (lru_heap s (lru_head s)) \<noteq> lru_next_ref s"
  shows "insert_head key value s =
     (Inr (), s\<lparr>lru_heap :=
                  upd_PREV (lru_head s) (lru_next_ref s)
                    (upd_NEXT (PREV (lru_heap s (lru_head s))) (lru_next_ref s)
                       ((lru_heap s)(lru_next_ref s :=
                          Link (PREV (lru_heap s (lru_head s))) (lru_head s) key value))),
                lru_next_ref := Suc (lru_next_ref s),
                lru_head := lru_next_ref s,
                lru_cache := AList.update key (lru_next_ref s) (lru_cache s)\<rparr>)"
  using assms by (simp add: insert_head_def plain_defs link_evals)

lemma evict_eval:
  assumes "lru_heap s (lru_head s) \<noteq> Empty_list"
    and "lru_heap s (PREV (lru_heap s (lru_head s))) \<noteq> Empty_list"
    and "lru_heap s (PREV (lru_heap s (PREV (lru_heap s (lru_head s))))) \<noteq> Empty_list"
    and "map_of (lru_cache s) (KEY (lru_heap s (PREV (lru_heap s (lru_head s))))) \<noteq> None"
  shows "evict s =
     (Inr (), s\<lparr>lru_full := True,
                lru_heap :=
                  upd_PREV (lru_head s) (PREV (lru_heap s (PREV (lru_heap s (lru_head s)))))
                    (upd_NEXT (PREV (lru_heap s (PREV (lru_heap s (lru_head s))))) (lru_head s)
                       (lru_heap s)),
                lru_cache :=
                  AList.delete (KEY (lru_heap s (PREV (lru_heap s (lru_head s))))) (lru_cache s)\<rparr>)"
  using assms by (auto simp: evict_def plain_defs link_evals cache_delitem_def)

subsection \<open>Insertion and eviction keep the cache well formed\<close>

lemma update_fresh: "k \<notin> fst ` set al \<Longrightarrow> AList.update k v al = al @ [(k, v)]"
  by (induction al) auto

lemma map_of_None_fst: "(map_of al k = None) = (k \<notin> fst ` set al)"
  by (simp add: map_of_eq_None_iff)

lemma wf_length: "lru_wf s rs \<Longrightarrow> length (lru_cache s) = length rs"
proof -
  assume w: "lru_wf s rs"
  then have "distinct (map snd (lru_cache s))" "distinct rs"
    "set (map snd (lru_cache s)) = set rs" by (auto simp: lru_wf_def)
  then have "length (map snd (lru_cache s)) = length rs"
    by (metis distinct_card)
  then show ?thesis by simp
qed

lemma wf_nonempty:
  assumes "lru_wf s rs" "rs \<noteq> []"
  shows "lru_head s = hd rs"
    and "chain (lru_heap s) (last rs) rs (hd rs)"
    and "\<And>a. a \<in> set rs \<Longrightarrow> lru_heap s a \<noteq> Empty_list"
    and "PREV (lru_heap s (hd rs)) = last rs"
    and "NEXT (lru_heap s (last rs)) = hd rs"
    and "\<And>a. a \<in> set rs \<Longrightarrow> a \<noteq> lru_next_ref s"
proof -
  from assms show h: "lru_head s = hd rs" by (simp add: lru_wf_def)
  from assms h show c: "chain (lru_heap s) (last rs) rs (hd rs)" by (simp add: lru_wf_def)
  from c show "\<And>a. a \<in> set rs \<Longrightarrow> lru_heap s a \<noteq> Empty_list" by (rule chain_not_Empty)
  from c assms(2) show "PREV (lru_heap s (hd rs)) = last rs" by (rule chain_hd)
  from c assms(2) show "NEXT (lru_heap s (last rs)) = hd rs" by (rule chain_last)
  from assms show "\<And>a. a \<in> set rs \<Longrightarrow> a \<noteq> lru_next_ref s" by (auto simp: lru_wf_def)
qed

lemma wf_map_of:
  assumes "lru_wf s rs" "a \<in> set rs"
  shows "map_of (lru_cache s) (KEY (lru_heap s a)) = Some a"
proof -
  from assms have "a \<in> set (map snd (lru_cache s))" by (simp add: lru_wf_def)
  then obtain k where k: "(k, a) \<in> set (lru_cache s)" by auto
  with assms have "has_key (lru_heap s a) k" by (auto simp: lru_wf_def)
  then have "KEY (lru_heap s a) = k" by (simp add: has_key_iff)
  moreover from assms have "distinct (map fst (lru_cache s))" by (simp add: lru_wf_def)
  ultimately show ?thesis using k by simp
qed

lemma insert_head_wf:
  assumes w: "lru_wf s rs" and k: "\<not> LRUCache_contains key s"
  shows "\<exists>s'. insert_head key value s = (Inr (), s') \<and>
           lru_wf s' ((if rs = [] then lru_head s else lru_next_ref s) # rs) \<and>
           lru_maxsize s' = lru_maxsize s \<and> lru_full s' = lru_full s"
proof (cases "rs = []")
  case True
  with w have e: "lru_heap s (lru_head s) = Empty_list" by (simp add: lru_wf_def)
  from w True have c: "lru_cache s = []" by (auto simp: lru_wf_def)
  show ?thesis
    using w True c by (simp add: insert_head_empty [OF e] lru_wf_def)
next
  case False
  note f = wf_nonempty [OF w False]
  let ?n = "lru_next_ref s"
  have hd_in: "hd rs \<in> set rs" and last_in: "last rs \<in> set rs" using False by auto
  have fresh: "key \<notin> fst ` set (lru_cache s)"
    using k by (simp add: LRUCache_contains_def map_of_None_fst)
  have n: "?n \<notin> set rs" using f(6) by auto
  have e: "insert_head key value s =
     (Inr (), s\<lparr>lru_heap :=
                  upd_PREV (hd rs) ?n (upd_NEXT (last rs) ?n
                     ((lru_heap s)(?n := Link (last rs) (hd rs) key value))),
                lru_next_ref := Suc ?n, lru_head := ?n,
                lru_cache := lru_cache s @ [(key, ?n)]\<rparr>)"
    using insert_head_nonempty [of s key "value"] f hd_in last_in
    by (simp add: update_fresh [OF fresh])
  have ch: "chain (upd_PREV (hd rs) ?n (upd_NEXT (last rs) ?n
                     ((lru_heap s)(?n := Link (last rs) (hd rs) key value))))
              (last rs) (?n # rs) ?n"
    using False w n f(2) by (intro chain_insert) (auto simp: lru_wf_def)
  have keys: "\<forall>(k, a) \<in> set (lru_cache s). a \<noteq> ?n \<and> has_key (lru_heap s a) k"
    using w n by (force simp: lru_wf_def)
  show ?thesis
    unfolding e using w False n ch fresh keys hd_in last_in f(3)
    by (auto simp: lru_wf_def has_key_iff less_Suc_eq)
qed

lemma map_snd_delete:
  "distinct (map fst al) \<Longrightarrow> distinct (map snd al) \<Longrightarrow> map_of al k = Some a \<Longrightarrow>
   map snd (AList.delete k al) = remove1 a (map snd al)"
proof (induction al)
  case (Cons x al)
  obtain k' a' where x: "x = (k', a')" by (cases x)
  show ?case
  proof (cases "k' = k")
    case True
    with Cons.prems x have "a' = a" "k \<notin> fst ` set al" by auto
    with True x show ?thesis by simp
  next
    case False
    with Cons.prems x have m: "map_of al k = Some a" by simp
    then have "a \<in> snd ` set al" by (force dest: map_of_SomeD)
    with Cons.prems x have "a' \<noteq> a" by auto
    with False x Cons m show ?thesis by simp
  qed
qed simp

lemma evict_wf:
  assumes w: "lru_wf s rs" and l: "2 \<le> length rs"
  shows "\<exists>s'. evict s = (Inr (), s') \<and> lru_wf s' (butlast rs) \<and>
           lru_maxsize s' = lru_maxsize s \<and> lru_full s'"
proof -
  from l have "rs \<noteq> []" by auto
  then have "rs = butlast rs @ [last rs]" by simp
  moreover from l have "butlast rs \<noteq> []" by (cases rs rule: rev_cases) auto
  ultimately obtain xs t where rs: "rs = xs @ [t]" and xs: "xs \<noteq> []" by blast
  have ne: "rs \<noteq> []" using rs by simp
  note f = wf_nonempty [OF w ne]
  have d: "distinct (xs @ [t])" using w rs by (simp add: lru_wf_def)
  have hd: "hd rs = hd xs" "last rs = t" using rs xs by auto
  have c: "chain (lru_heap s) t (xs @ [t]) (hd xs)" using f(2) rs hd by simp
  then have "links (lru_heap s t) (last xs) (hd xs)" using xs by (simp add: chain_append)
  then have pt: "PREV (lru_heap s t) = last xs" by (simp add: links_iff)
  have ins: "t \<in> set rs" "last xs \<in> set rs" "hd xs \<in> set rs" using rs xs by auto
  have mo: "map_of (lru_cache s) (KEY (lru_heap s t)) = Some t"
    using wf_map_of [OF w ins(1)] .
  have e: "evict s =
     (Inr (), s\<lparr>lru_full := True,
                lru_heap := upd_PREV (hd xs) (last xs) (upd_NEXT (last xs) (hd xs) (lru_heap s)),
                lru_cache := AList.delete (KEY (lru_heap s t)) (lru_cache s)\<rparr>)"
    using evict_eval [of s] f(1,3,4) hd pt ins mo by simp
  have ch: "chain (upd_PREV (hd xs) (last xs) (upd_NEXT (last xs) (hd xs) (lru_heap s)))
              (last xs) xs (hd xs)"
    using xs d c by (rule chain_evict)
  have dk: "distinct (map fst (lru_cache s))" and ds: "distinct (map snd (lru_cache s))"
    and ss: "set (map snd (lru_cache s)) = set rs"
    using w by (auto simp: lru_wf_def)
  have ms: "map snd (AList.delete (KEY (lru_heap s t)) (lru_cache s)) =
              remove1 t (map snd (lru_cache s))"
    using dk ds mo by (rule map_snd_delete)
  have s1: "set (map snd (AList.delete (KEY (lru_heap s t)) (lru_cache s))) = set xs"
    using ms ds ss d rs by (simp del: set_map)
  have s2: "distinct (map snd (AList.delete (KEY (lru_heap s t)) (lru_cache s)))"
    using ms ds by simp
  have keys: "\<forall>(k, a) \<in> set (AList.delete (KEY (lru_heap s t)) (lru_cache s)).
                has_key (lru_heap s a) k"
    using w by (auto simp: lru_wf_def AList.delete_eq)
  show ?thesis
    unfolding e using w rs xs d ch s1 s2 keys dk f(1) hd
    by (auto simp: lru_wf_def has_key_iff distinct_delete simp del: set_map)
qed

subsection \<open>\<^verbatim>\<open>set\<close> keeps the invariant\<close>

lemma LRUCache_set_absent:
  "\<not> LRUCache_contains key s \<Longrightarrow> insert_head key value s = (Inr (), s1) \<Longrightarrow>
   LRUCache_set key value s =
     (if lru_full s1 \<or> int (length (lru_cache s1)) > lru_maxsize s1 then evict s1
      else (Inr (), s1))"
  by (simp add: LRUCache_set_def LRUCache_contains_def plain_defs)

lemma LRUCache_set_inv:
  assumes i: "lru_inv s rs"
  shows "\<exists>s' rs'. LRUCache_set key value s = (Inr (), s') \<and> lru_inv s' rs' \<and>
           lru_maxsize s' = lru_maxsize s"
proof (cases "LRUCache_contains key s")
  case True
  then have "LRUCache_set key value s = (Inr (), s)"
    by (auto simp: LRUCache_contains_def LRUCache_set_def plain_defs)
  with i show ?thesis by auto
next
  case False
  from i have w: "lru_wf s rs" by (simp add: lru_inv_def)
  let ?n = "if rs = [] then lru_head s else lru_next_ref s"
  from insert_head_wf [OF w False, of "value"] obtain s1 where
    e1: "insert_head key value s = (Inr (), s1)" and w1: "lru_wf s1 (?n # rs)"
    and m1: "lru_maxsize s1 = lru_maxsize s" and f1: "lru_full s1 = lru_full s"
    by blast
  have len1: "length (lru_cache s1) = Suc (length rs)" using wf_length [OF w1] by simp
  note st = LRUCache_set_absent [OF False e1]
  show ?thesis
  proof (cases "lru_full s1 \<or> int (length (lru_cache s1)) > lru_maxsize s1")
    case True
    with i f1 m1 len1 have "rs \<noteq> []" by (auto simp: lru_inv_def)
    then have "2 \<le> length (?n # rs)" by (cases rs) auto
    from evict_wf [OF w1 this] obtain s2 where
      e2: "evict s1 = (Inr (), s2)" and w2: "lru_wf s2 (butlast (?n # rs))"
      and m2: "lru_maxsize s2 = lru_maxsize s1" and f2: "lru_full s2"
      by blast
    have "lru_inv s2 (butlast (?n # rs))"
      using w2 m2 m1 f2 i \<open>rs \<noteq> []\<close> by (auto simp: lru_inv_def)
    with st True e2 m1 m2 show ?thesis by auto
  next
    case False
    then have "lru_inv s1 (?n # rs)"
      using w1 m1 len1 i by (auto simp: lru_inv_def)
    with st False m1 show ?thesis by auto
  qed
qed

lemma LRUCache_init_inv: "0 < maxsize \<Longrightarrow> lru_inv (LRUCache_init maxsize) []"
  by (simp add: lru_inv_def lru_wf_def LRUCache_init_def)

lemma LRUCache_sets_inv:
  "lru_inv s rs \<Longrightarrow>
   \<exists>s' rs'. LRUCache_sets kvs s = (Inr (), s') \<and> lru_inv s' rs' \<and>
     lru_maxsize s' = lru_maxsize s"
proof (induction kvs arbitrary: s rs)
  case Nil
  then show ?case by auto
next
  case (Cons kv kvs)
  obtain key "value" where kv: "kv = (key, value)" by (cases kv)
  from LRUCache_set_inv [OF Cons.prems, of key "value"] obtain s1 rs1 where
    e: "LRUCache_set key value s = (Inr (), s1)" and i1: "lru_inv s1 rs1"
    and m: "lru_maxsize s1 = lru_maxsize s" by blast
  from Cons.IH [OF i1] e m kv show ?case by auto
qed

lemma lru_inv_capacity: "lru_inv s rs \<Longrightarrow> int (LRUCache_len s) \<le> lru_maxsize s"
  using wf_length [of s rs] by (simp add: lru_inv_def LRUCache_len_def)

subsection \<open>Capacity\<close>

lemma FIFOCache_set_inv:
  assumes "1 \<le> fifo_maxsize s" "int (length (fifo_cache s)) \<le> fifo_maxsize s"
  shows "\<exists>s'. FIFOCache_set key value s = (Inr (), s') \<and> fifo_maxsize s' = fifo_maxsize s \<and>
           int (length (fifo_cache s')) \<le> fifo_maxsize s"
proof (cases "map_of (fifo_cache s) key = None \<and> int (length (fifo_cache s)) \<ge> fifo_maxsize s")
  case True
  with assms obtain k0 v0 rest where c: "fifo_cache s = (k0, v0) # rest"
    by (cases "fifo_cache s") auto
  from True have fresh: "key \<notin> fst ` set (fifo_cache s)" by (simp add: map_of_eq_None_iff)
  then have "key \<notin> fst ` set (AList.delete k0 (fifo_cache s))"
    by (auto simp: AList.delete_eq)
  then have "length (AList.update key value (AList.delete k0 (fifo_cache s))) =
     Suc (length (AList.delete k0 rest))"
    using c by (simp add: length_update)
  moreover have "length (AList.delete k0 rest) \<le> length rest" by (rule length_delete_le)
  ultimately show ?thesis using True c assms by (simp add: FIFOCache_set_def)
next
  case False
  then show ?thesis using assms
    by (auto simp: FIFOCache_set_def length_update map_of_eq_None_iff)
qed

lemma FIFOCache_sets_inv:
  "1 \<le> fifo_maxsize s \<Longrightarrow> int (length (fifo_cache s)) \<le> fifo_maxsize s \<Longrightarrow>
   \<exists>s'. FIFOCache_sets kvs s = (Inr (), s') \<and> fifo_maxsize s' = fifo_maxsize s \<and>
     int (length (fifo_cache s')) \<le> fifo_maxsize s"
proof (induction kvs arbitrary: s)
  case Nil
  then show ?case by auto
next
  case (Cons kv kvs)
  obtain key "value" where kv: "kv = (key, value)" by (cases kv)
  from FIFOCache_set_inv [OF Cons.prems, of key "value"] obtain s1 where
    e: "FIFOCache_set key value s = (Inr (), s1)" and m: "fifo_maxsize s1 = fifo_maxsize s"
    and l: "int (length (fifo_cache s1)) \<le> fifo_maxsize s" by blast
  from Cons.IH [of s1] Cons.prems e m l kv show ?case by auto
qed

text \<open>
  C1: on a cache constructed with a positive \<^verbatim>\<open>maxsize\<close>, \<^verbatim>\<open>LRUCache\<close> or
  \<^verbatim>\<open>FIFOCache\<close>, and for a sequence of \<^verbatim>\<open>set\<close> calls with pairwise distinct keys,
  after each call (after the first \<open>n\<close> calls, for every \<open>n\<close>) the calls have all
  returned, the dict holds at most \<^verbatim>\<open>maxsize\<close> entries, and \<^verbatim>\<open>maxsize\<close> is as
  constructed. The proof does not use that the keys are distinct.
\<close>

theorem capacity_invariant:
  assumes "0 < maxsize" and "distinct (map fst kvs)" and "n \<le> length kvs"
  shows "fst (LRUCache_sets (take n kvs) (LRUCache_init maxsize)) = Inr () \<and>
         int (LRUCache_len (snd (LRUCache_sets (take n kvs) (LRUCache_init maxsize)))) \<le> maxsize \<and>
         lru_maxsize (snd (LRUCache_sets (take n kvs) (LRUCache_init maxsize))) = maxsize \<and>
         fst (FIFOCache_sets (take n kvs) (FIFOCache_init maxsize)) = Inr () \<and>
         int (FIFOCache_len (snd (FIFOCache_sets (take n kvs) (FIFOCache_init maxsize)))) \<le> maxsize \<and>
         fifo_maxsize (snd (FIFOCache_sets (take n kvs) (FIFOCache_init maxsize))) = maxsize"
proof -
  from LRUCache_sets_inv [OF LRUCache_init_inv [OF assms(1)], of "take n kvs"]
  obtain s' rs' where "LRUCache_sets (take n kvs) (LRUCache_init maxsize) = (Inr (), s')"
    and "lru_inv s' rs'" and "lru_maxsize s' = maxsize"
    by (auto simp: LRUCache_init_def)
  then have l: "fst (LRUCache_sets (take n kvs) (LRUCache_init maxsize)) = Inr () \<and>
         int (LRUCache_len (snd (LRUCache_sets (take n kvs) (LRUCache_init maxsize)))) \<le> maxsize \<and>
         lru_maxsize (snd (LRUCache_sets (take n kvs) (LRUCache_init maxsize))) = maxsize"
    using lru_inv_capacity [of s' rs'] by simp
  from FIFOCache_sets_inv [of "FIFOCache_init maxsize" "take n kvs"] assms(1)
  obtain f' where "FIFOCache_sets (take n kvs) (FIFOCache_init maxsize) = (Inr (), f')"
    and "fifo_maxsize f' = maxsize" and "int (length (fifo_cache f')) \<le> maxsize"
    by (auto simp: FIFOCache_init_def)
  then have "fst (FIFOCache_sets (take n kvs) (FIFOCache_init maxsize)) = Inr () \<and>
         int (FIFOCache_len (snd (FIFOCache_sets (take n kvs) (FIFOCache_init maxsize)))) \<le> maxsize \<and>
         fifo_maxsize (snd (FIFOCache_sets (take n kvs) (FIFOCache_init maxsize))) = maxsize"
    by (simp add: FIFOCache_len_def)
  with l show ?thesis by simp
qed

theorem capacity_invariant_witness:
  "(0::int) < 2 \<and> distinct (map fst [(''a'', 1::int), (''b'', 2), (''c'', 3)]) \<and>
   (3::nat) \<le> length [(''a'', 1::int), (''b'', 2), (''c'', 3)] \<and>
   fst (LRUCache_sets (take 3 [(''a'', 1::int), (''b'', 2), (''c'', 3)]) (LRUCache_init 2)) = Inr () \<and>
   int (LRUCache_len (snd (LRUCache_sets (take 3 [(''a'', 1::int), (''b'', 2), (''c'', 3)])
     (LRUCache_init 2)))) \<le> 2 \<and>
   fst (FIFOCache_sets (take 3 [(''a'', 1::int), (''b'', 2), (''c'', 3)]) (FIFOCache_init 2)) = Inr () \<and>
   int (FIFOCache_len (snd (FIFOCache_sets (take 3 [(''a'', 1::int), (''b'', 2), (''c'', 3)])
     (FIFOCache_init 2)))) \<le> 2"
proof -
  have h1: "(0::int) < 2" by simp
  have h2: "distinct (map fst [(''a'', 1::int), (''b'', 2), (''c'', 3)])" by simp
  have h3: "(3::nat) \<le> length [(''a'', 1::int), (''b'', 2), (''c'', 3)]" by simp
  from capacity_invariant [OF h1 h2 h3] h1 h2 h3 show ?thesis by blast
qed

subsection \<open>A hit on the head\<close>

lemma found_head:
  "lru_heap s (lru_head s) \<noteq> Empty_list \<Longrightarrow>
   found (lru_head s) s =
     (Inr (VALUE (lru_heap s (lru_head s))), s\<lparr>lru_hits := lru_hits s + 1\<rparr>)"
  by (simp add: found_def plain_defs link_evals)

lemma wf_head_key:
  assumes w: "lru_wf s rs" and k: "has_key (lru_heap s (lru_head s)) key"
  shows "map_of (lru_cache s) key = Some (lru_head s)"
proof -
  from k have ne: "lru_heap s (lru_head s) \<noteq> Empty_list" and kk: "KEY (lru_heap s (lru_head s)) = key"
    by (simp_all add: has_key_iff)
  with w have rs: "rs \<noteq> []" by (auto simp: lru_wf_def)
  with w have "lru_head s = hd rs" by (simp add: lru_wf_def)
  with rs have "lru_head s \<in> set rs" by simp
  from wf_map_of [OF w this] kk show ?thesis by simp
qed

lemma lookup_head:
  assumes w: "lru_wf s rs" and k: "has_key (lru_heap s (lru_head s)) key"
  shows "LRUCache_lookup key f s =
     (Inr (Value (VALUE (lru_heap s (lru_head s)))), s\<lparr>lru_hits := lru_hits s + 1\<rparr>)"
proof -
  note m = wf_head_key [OF w k]
  from k have ne: "lru_heap s (lru_head s) \<noteq> Empty_list" by (simp add: has_key_iff)
  show ?thesis
    by (cases f) (simp_all add: LRUCache_get_def LRUCache_getitem_def cache_get_def seq_def
        ret_def m found_head [OF ne])
qed

lemma wf_hits: "lru_wf (s\<lparr>lru_hits := h\<rparr>) rs = lru_wf s rs"
  by (simp add: lru_wf_def)

subsection \<open>Promotion, and the invariant under every method\<close>

lemma chain_upd_PREV_notin:
  "l \<notin> set rs \<Longrightarrow> chain (upd_PREV l x h) p rs q = chain h p rs q"
  by (intro chain_cong upd_PREV_other) auto

lemma chain_upd_NEXT_notin:
  "l \<notin> set rs \<Longrightarrow> chain (upd_NEXT l x h) p rs q = chain h p rs q"
  by (intro chain_cong upd_NEXT_other) auto

lemma chain_cons:
  assumes "rs \<noteq> []" "distinct rs" "n \<notin> set rs" "chain h (last rs) rs (hd rs)"
    and "links (h n) (last rs) (hd rs)"
  shows "chain (upd_PREV (hd rs) n (upd_NEXT (last rs) n h)) (last rs) (n # rs) n"
proof -
  let ?h2 = "upd_NEXT (last rs) n h"
  let ?h3 = "upd_PREV (hd rs) n ?h2"
  have "chain ?h2 (last rs) rs n" using assms by (intro chain_upd_NEXT_last)
  then have c3: "chain ?h3 n rs n" using assms by (intro chain_upd_PREV_hd)
  have "hd rs \<noteq> n" "last rs \<noteq> n" using assms by auto
  then have "?h3 n = h n" by simp
  with c3 assms(1,5) show ?thesis by (cases rs) auto
qed

lemma chain_unlink:
  assumes d: "distinct (xs @ l # ys)" and xs: "xs \<noteq> []"
    and c: "chain h (last (xs @ l # ys)) (xs @ l # ys) (hd xs)"
  shows "chain (upd_PREV (hd (ys @ xs)) (last xs) (upd_NEXT (last xs) (hd (ys @ xs)) h))
           (last (xs @ ys)) (xs @ ys) (hd xs)"
proof (cases "ys = []")
  case True
  with chain_evict [of xs l h] d xs c show ?thesis by simp
next
  case False
  let ?h1 = "upd_NEXT (last xs) (hd ys) h"
  let ?h2 = "upd_PREV (hd ys) (last xs) ?h1"
  from c xs False have c1: "chain h (last ys) xs l" and c2: "chain h (last xs) (l # ys) (hd xs)"
    by (simp_all add: chain_append)
  from c2 False have c3: "chain h l ys (hd xs)" by (cases ys) auto
  have "chain ?h1 (last ys) xs (hd ys)" using c1 d xs by (intro chain_upd_NEXT_last) auto
  moreover have "hd ys \<notin> set xs" using d False by (cases ys) auto
  ultimately have a: "chain ?h2 (last ys) xs (hd ys)"
    by (simp add: chain_upd_PREV_notin)
  have "last xs \<notin> set ys" using d xs by (cases xs rule: rev_cases) auto
  then have "chain ?h1 l ys (hd xs)" using c3 by (simp add: chain_upd_NEXT_notin)
  then have b: "chain ?h2 (last xs) ys (hd xs)" using d False by (intro chain_upd_PREV_hd) auto
  from a b xs False show ?thesis by (simp add: chain_append)
qed

lemma chain_mid:
  assumes xs: "xs \<noteq> []" and c: "chain h q (xs @ l # ys) (hd xs)"
  shows "h l \<noteq> Empty_list" "PREV (h l) = last xs" "NEXT (h l) = hd (ys @ xs)"
proof -
  from c xs have c2: "chain h (last xs) (l # ys) (hd xs)" by (simp add: chain_append)
  then show "h l \<noteq> Empty_list" "PREV (h l) = last xs" "NEXT (h l) = hd (ys @ xs)"
    by (cases ys; simp add: links_iff)+
qed

lemma promote_eval:
  assumes "lru_heap s link \<noteq> Empty_list"
    and "lru_heap s (PREV (lru_heap s link)) \<noteq> Empty_list"
    and "lru_heap s (NEXT (lru_heap s link)) \<noteq> Empty_list"
    and "lru_heap s (lru_head s) \<noteq> Empty_list"
    and "link \<noteq> PREV (lru_heap s link)" and "link \<noteq> lru_head s"
    and "h2 = upd_PREV (NEXT (lru_heap s link)) (PREV (lru_heap s link))
                (upd_NEXT (PREV (lru_heap s link)) (NEXT (lru_heap s link)) (lru_heap s))"
    and "h2 (PREV (h2 (lru_head s))) \<noteq> Empty_list"
  shows "promote link s =
     (Inr (), s\<lparr>lru_heap :=
                  upd_PREV (lru_head s) link
                    (upd_NEXT (PREV (h2 (lru_head s))) link
                       (upd_NEXT link (lru_head s)
                          (upd_PREV link (PREV (h2 (lru_head s))) h2))),
                lru_head := link\<rparr>)"
  using assms by (simp add: promote_def plain_defs link_evals)

lemma promote_wf:
  assumes w: "lru_wf s rs" and l: "link \<in> set rs" and nh: "link \<noteq> lru_head s"
  shows "\<exists>s'. promote link s = (Inr (), s') \<and> lru_wf s' (link # remove1 link rs) \<and>
           lru_maxsize s' = lru_maxsize s \<and> lru_full s' = lru_full s \<and>
           lru_cache s' = lru_cache s \<and> lru_hits s' = lru_hits s \<and>
           lru_misses s' = lru_misses s \<and> lru_head s' = link \<and>
           lru_heap s' link \<noteq> Empty_list \<and>
           VALUE (lru_heap s' link) = VALUE (lru_heap s link)"
proof -
  from l have ne: "rs \<noteq> []" by auto
  note f = wf_nonempty [OF w ne]
  from w have d: "distinct rs" by (simp add: lru_wf_def)
  from l obtain xs ys where rs: "rs = xs @ link # ys" by (auto simp: in_set_conv_decomp)
  with nh f(1) have xs: "xs \<noteq> []" by (cases xs) auto
  let ?rs' = "xs @ ys"
  let ?h = "lru_heap s"
  let ?h2 = "upd_PREV (hd (ys @ xs)) (last xs) (upd_NEXT (last xs) (hd (ys @ xs)) ?h)"
  have hd: "lru_head s = hd xs" "hd ?rs' = hd xs" using f(1) rs xs by auto
  have rm: "remove1 link rs = ?rs'" using d rs by (simp add: remove1_append)
  have c: "chain ?h (last (xs @ link # ys)) (xs @ link # ys) (hd xs)"
    using f(2) rs xs by simp
  note m = chain_mid [OF xs c]
  have ins: "last xs \<in> set rs" "hd (ys @ xs) \<in> set rs" "hd xs \<in> set rs"
    using rs xs by (auto simp: hd_append)
  have nl: "link \<noteq> last xs" using d rs xs by (cases xs rule: rev_cases) auto
  have d': "distinct ?rs'" and ln: "link \<notin> set ?rs'" using d rs by auto
  have c2: "chain ?h2 (last ?rs') ?rs' (hd xs)"
    using d xs c unfolding rs by (rule chain_unlink)
  have p2: "PREV (?h2 (hd xs)) = last ?rs'"
    using chain_hd [OF c2] xs hd by simp
  have last_in: "last ?rs' \<in> set ?rs'" using xs by (intro last_in_set) simp
  have e2: "?h2 (last ?rs') \<noteq> Empty_list" using chain_not_Empty [OF c2 last_in] .
  let ?g = "upd_NEXT link (hd xs) (upd_PREV link (last ?rs') ?h2)"
  have e: "promote link s =
     (Inr (), s\<lparr>lru_heap := upd_PREV (hd xs) link (upd_NEXT (last ?rs') link ?g),
                lru_head := link\<rparr>)"
    using promote_eval [of s link ?h2] m f(3) [OF ins(1)] f(3) [OF ins(2)] f(3) [OF ins(3)]
      nl nh hd p2 e2
    by simp
  have cg: "chain ?g (last ?rs') ?rs' (hd ?rs')"
    using c2 ln hd by (simp add: chain_upd_NEXT_notin chain_upd_PREV_notin)
  have lg: "links (?g link) (last ?rs') (hd ?rs')"
    using m(1) hd by (simp add: links_iff)
  have ch: "chain (upd_PREV (hd ?rs') link (upd_NEXT (last ?rs') link ?g))
              (last ?rs') (link # ?rs') link"
    using xs d' ln cg lg by (intro chain_cons) auto
  have st: "set (link # ?rs') = set rs" using rs by auto
  have keys: "\<forall>(k, a) \<in> set (lru_cache s). has_key (lru_heap s a) k"
    using w by (simp add: lru_wf_def)
  show ?thesis
    unfolding e rm using w d' ln ch st keys l m(1) hd xs
    by (auto simp: lru_wf_def has_key_iff simp del: set_append)
qed

lemma inv_hits: "lru_inv (s\<lparr>lru_hits := h\<rparr>) rs = lru_inv s rs"
  by (simp add: lru_inv_def lru_wf_def)

lemma inv_misses: "lru_inv (s\<lparr>lru_misses := h\<rparr>) rs = lru_inv s rs"
  by (simp add: lru_inv_def lru_wf_def)

lemma found_inv:
  assumes i: "lru_inv s rs" and m: "map_of (lru_cache s) key = Some link"
  shows "\<exists>s' rs'. found link s = (Inr (VALUE (lru_heap s link)), s') \<and> lru_inv s' rs' \<and>
           lru_hits s' = lru_hits s + 1 \<and> lru_cache s' = lru_cache s"
proof -
  from i have w: "lru_wf s rs" by (simp add: lru_inv_def)
  from m have "link \<in> set (map snd (lru_cache s))" by (force dest: map_of_SomeD)
  with w have l: "link \<in> set rs" by (simp add: lru_wf_def)
  then have ne: "rs \<noteq> []" by auto
  show ?thesis
  proof (cases "link = lru_head s")
    case True
    have "lru_heap s (lru_head s) \<noteq> Empty_list"
      using wf_nonempty(3) [OF w ne l] True by simp
    from found_head [OF this] True i show ?thesis by (auto simp: inv_hits)
  next
    case False
    from promote_wf [OF w l False] obtain s1 where
      p: "promote link s = (Inr (), s1)" and w1: "lru_wf s1 (link # remove1 link rs)"
      and fr: "lru_maxsize s1 = lru_maxsize s" "lru_full s1 = lru_full s"
        "lru_cache s1 = lru_cache s" "lru_hits s1 = lru_hits s"
      and v: "lru_heap s1 link \<noteq> Empty_list" "VALUE (lru_heap s1 link) = VALUE (lru_heap s link)"
      by blast
    have len: "length (link # remove1 link rs) = length rs"
      using l ne by (simp add: length_remove1)
    have "lru_inv s1 (link # remove1 link rs)"
      using w1 fr i len by (simp add: lru_inv_def)
    then have "lru_inv (s1\<lparr>lru_hits := lru_hits s1 + 1\<rparr>) (link # remove1 link rs)"
      by (simp add: inv_hits)
    moreover have "found link s =
      (Inr (VALUE (lru_heap s link)), s1\<lparr>lru_hits := lru_hits s1 + 1\<rparr>)"
      using False p v by (simp add: found_def plain_defs link_evals)
    ultimately show ?thesis using fr by auto
  qed
qed

lemma LRUCache_get_inv:
  assumes i: "lru_inv s rs"
  shows "\<exists>r s' rs'. LRUCache_get key d s = (Inr r, s') \<and> lru_inv s' rs' \<and>
           lru_cache s' = lru_cache s"
proof (cases "map_of (lru_cache s) key")
  case None
  with i show ?thesis
    by (auto simp: LRUCache_get_def plain_defs inv_misses)
next
  case (Some link)
  from found_inv [OF i Some] Some show ?thesis
    by (auto simp: LRUCache_get_def plain_defs)
qed

lemma LRUCache_getitem_inv:
  assumes i: "lru_inv s rs"
  shows "\<exists>r s' rs'. LRUCache_getitem key s = (r, s') \<and> lru_inv s' rs' \<and>
           lru_cache s' = lru_cache s \<and> (r = Inl KeyError) = (\<not> LRUCache_contains key s)"
proof (cases "map_of (lru_cache s) key")
  case None
  with i show ?thesis
    by (auto simp: LRUCache_getitem_def LRUCache_contains_def plain_defs inv_misses)
next
  case (Some link)
  from found_inv [OF i Some] Some show ?thesis
    by (auto simp: LRUCache_getitem_def LRUCache_contains_def plain_defs)
qed

lemma LRUCache_clear_inv:
  "lru_inv s rs \<Longrightarrow> \<exists>s'. LRUCache_clear s = (Inr (), s') \<and> lru_inv s' []"
  by (simp add: LRUCache_clear_def plain_defs lru_inv_def lru_wf_def)

lemma LRUCache_grow_inv:
  "lru_inv s rs \<Longrightarrow> \<exists>s'. LRUCache_grow n s = (Inr (), s') \<and> lru_inv s' rs"
  by (auto simp: LRUCache_grow_def plain_defs lru_inv_def lru_wf_def)

subsection \<open>Repeated lookups of the head's key\<close>

text \<open>
  C9: in a well-formed \<^verbatim>\<open>LRUCache\<close> whose head entry has key \<open>key\<close>, any number of
  lookups of \<open>key\<close>, each by \<^verbatim>\<open>get\<close> or by \<^verbatim>\<open>__getitem__\<close>, all return the head's
  value and change nothing but \<^verbatim>\<open>hits\<close>, which counts them: the ring is the same list
  \<open>rs\<close> in the same order, the head and every list object are untouched (no
  relinking), and the dict is the same (no key removed, nothing evicted).
\<close>

theorem lookups_of_head_keep_ring:
  assumes "lru_wf s rs" and "has_key (lru_heap s (lru_head s)) key"
  shows "LRUCache_lookups key fs s =
           (Inr (replicate (length fs) (Value (VALUE (lru_heap s (lru_head s))))),
            s\<lparr>lru_hits := lru_hits s + int (length fs)\<rparr>) \<and>
         lru_wf (snd (LRUCache_lookups key fs s)) rs \<and>
         lru_head (snd (LRUCache_lookups key fs s)) = lru_head s \<and>
         lru_heap (snd (LRUCache_lookups key fs s)) = lru_heap s \<and>
         lru_cache (snd (LRUCache_lookups key fs s)) = lru_cache s"
proof -
  have "LRUCache_lookups key fs s =
           (Inr (replicate (length fs) (Value (VALUE (lru_heap s (lru_head s))))),
            s\<lparr>lru_hits := lru_hits s + int (length fs)\<rparr>)"
    using assms
  proof (induction fs arbitrary: s)
    case Nil
    then show ?case by (simp add: ret_def)
  next
    case (Cons f fs)
    let ?s1 = "s\<lparr>lru_hits := lru_hits s + 1\<rparr>"
    have w1: "lru_wf ?s1 rs" using Cons.prems(1) by (simp add: wf_hits)
    have k1: "has_key (lru_heap ?s1 (lru_head ?s1)) key" using Cons.prems(2) by simp
    from Cons.IH [OF w1 k1] lookup_head [OF Cons.prems, of f]
    show ?case by (simp add: seq_def ret_def add.assoc)
  qed
  then show ?thesis using assms(1) by (simp add: wf_hits)
qed

theorem lookups_of_head_keep_ring_witness:
  "lru_wf (snd (LRUCache_sets [(''a'', 1::int), (''b'', 2)] (LRUCache_init 2))) [1, 0] \<and>
   has_key (lru_heap (snd (LRUCache_sets [(''a'', 1::int), (''b'', 2)] (LRUCache_init 2)))
     (lru_head (snd (LRUCache_sets [(''a'', 1::int), (''b'', 2)] (LRUCache_init 2))))) ''b'' \<and>
   fst (LRUCache_lookups ''b'' [By_get (), By_getitem]
     (snd (LRUCache_sets [(''a'', 1::int), (''b'', 2)] (LRUCache_init 2)))) =
     Inr [Value 2, Value 2] \<and>
   lru_wf (snd (LRUCache_lookups ''b'' [By_get (), By_getitem]
     (snd (LRUCache_sets [(''a'', 1::int), (''b'', 2)] (LRUCache_init 2))))) [1, 0]"
proof -
  let ?S = "snd (LRUCache_sets [(''a'', 1::int), (''b'', 2)] (LRUCache_init 2))"
  have e: "?S =
    \<lparr>lru_maxsize = 2, lru_cache = [(''a'', 0), (''b'', 1)], lru_full = False, lru_head = 1,
      lru_hits = 0, lru_misses = 0,
      lru_heap = (\<lambda>_. Empty_list)(0 := Link 1 1 ''a'' 1, 1 := Link 0 0 ''b'' 2),
      lru_next_ref = 2\<rparr>"
    by (simp add: LRUCache_set_def LRUCache_init_def insert_head_def stmt_defs fun_upd_twist)
  have h1: "lru_wf ?S [1, 0]" unfolding e by (auto simp: lru_wf_def)
  have h2: "has_key (lru_heap ?S (lru_head ?S)) ''b''" unfolding e by simp
  from lookups_of_head_keep_ring [OF h1 h2, of "[By_get (), By_getitem]"] h1 h2
  show ?thesis unfolding e by (auto simp: lru_wf_def)
qed

end
